theory Spec2Isabelle
  imports Complex_Main
begin

section \<open>Elementary row operations and Gauss-Jordan reduction (matrix/elementary.py)\<close>

text \<open>
  The module works on two-dimensional tensors of floating-point numbers. A tensor is modelled
  by the list of its rows, an entry by a real number: the arithmetic of the entries is exact,
  rounding, infinities and NaN are not part of the model. Comparisons, absolute values, row
  moves and index checks do no rounding in the source either, so what is proved about them
  does not depend on this idealisation. The concrete inputs evaluated below use entries,
  quotients and products that binary floating point represents exactly, so the source
  computes the same values on them; the two exceptions, the scenario matrix of C1 and the
  second example of C8, say so.

  A tensor of shape \<open>(0, c)\<close> is the empty list; \<open>rref\<close> leaves its loop at once on such an
  input, whatever \<open>c\<close> is.
\<close>

subsection \<open>Data model\<close>

datatype error = IndexError | ValueError | ZeroDivisionError

type_synonym matrix = "real list list"

definition rectangular :: "matrix \<Rightarrow> bool" where
  "rectangular A \<longleftrightarrow> (\<forall>row \<in> set A. length row = length (hd A))"

definition nrows :: "matrix \<Rightarrow> nat" where
  "nrows M = length M"

definition ncols :: "matrix \<Rightarrow> nat" where
  "ncols M = (case M of [] \<Rightarrow> 0 | row # _ \<Rightarrow> length row)"

text \<open>Sequencing of fallible steps: the first exception raised ends the call.\<close>

definition and_then :: "error + 'a \<Rightarrow> ('a \<Rightarrow> error + 'b) \<Rightarrow> error + 'b" where
  "and_then x f = (case x of Inl e \<Rightarrow> Inl e | Inr v \<Rightarrow> f v)"

text \<open>
  \<open>_as_float_tensor\<close> (lines 6 to 12). An argument that is no tensor is made one by
  \<open>torch.tensor\<close>, which raises \<open>ValueError\<close> on a nested list whose rows differ in length; a
  tensor of another element type is converted; the result is a \<open>clone\<close>. The entries are
  real numbers here, so the conversions change nothing and the result has the entries of the
  argument.
\<close>

definition as_float_tensor :: "matrix \<Rightarrow> error + matrix" where
  "as_float_tensor A = (if rectangular A then Inr A else Inl ValueError)"

text \<open>
  Row indexing of a tensor with \<open>n\<close> rows, as \<open>M[i, :]\<close> and \<open>M[[i, j], :]\<close> do it: an index
  from \<open>-n\<close> to \<open>-1\<close> counts from the last row, anything outside \<open>-n .. n-1\<close> raises
  \<open>IndexError\<close>. The source adds no check of its own.
\<close>

definition row_index :: "matrix \<Rightarrow> int \<Rightarrow> error + nat" where
  "row_index M i =
     (let n = int (length M)
      in if 0 \<le> i \<and> i < n then Inr (nat i)
         else if - n \<le> i \<and> i < 0 then Inr (nat (n + i))
         else Inl IndexError)"

subsection \<open>The three elementary operations\<close>

text \<open>
  Each operation copies its argument and then assigns to rows of the copy. The assignments,
  as functions of the contents of the copy \<open>M\<close>:
  \<open>M[[i, j], :] = M[[j, i], :]\<close> (line 17), \<open>M[i, :] = factor * M[i, :]\<close> (line 23) and
  \<open>M[i, :] = j_scale * M[i, :] + k_scale * M[j, :]\<close> (line 32). The right-hand side is
  evaluated first, from the contents before the assignment.
\<close>

definition swap_rows :: "matrix \<Rightarrow> int \<Rightarrow> int \<Rightarrow> error + matrix" where
  "swap_rows M i j =
     and_then (row_index M j) (\<lambda>j'.
     and_then (row_index M i) (\<lambda>i'.
       Inr (M[i' := M ! j', j' := M ! i'])))"

definition scale_row :: "matrix \<Rightarrow> int \<Rightarrow> real \<Rightarrow> error + matrix" where
  "scale_row M i factor =
     and_then (row_index M i) (\<lambda>i'.
       Inr (M[i' := map (\<lambda>x. factor * x) (M ! i')]))"

definition replace_row :: "matrix \<Rightarrow> int \<Rightarrow> int \<Rightarrow> real \<Rightarrow> real \<Rightarrow> error + matrix" where
  "replace_row M i j j_scale k_scale =
     and_then (row_index M i) (\<lambda>i'.
     and_then (row_index M j) (\<lambda>j'.
       Inr (M[i' := map2 (\<lambda>x y. j_scale * x + k_scale * y) (M ! i') (M ! j')])))"

definition rowswap :: "matrix \<Rightarrow> int \<Rightarrow> int \<Rightarrow> error + matrix" where
  "rowswap A i j = and_then (as_float_tensor A) (\<lambda>M. swap_rows M i j)"

definition rowscale :: "matrix \<Rightarrow> int \<Rightarrow> real \<Rightarrow> error + matrix" where
  "rowscale A i factor = and_then (as_float_tensor A) (\<lambda>M. scale_row M i factor)"

definition rowreplacement :: "matrix \<Rightarrow> int \<Rightarrow> int \<Rightarrow> real \<Rightarrow> real \<Rightarrow> error + matrix" where
  "rowreplacement A i j j_scale k_scale =
     and_then (as_float_tensor A) (\<lambda>M. replace_row M i j j_scale k_scale)"

subsection \<open>Gauss-Jordan reduction\<close>

text \<open>
  The pivot search of one column (source lines 55 to 61): the loop over \<open>rr\<close> carries the
  running maximum \<open>max_val\<close>, which starts at \<open>eps\<close>, and \<open>pivot_row\<close>, which starts at
  \<open>None\<close>.
\<close>

fun pivot_scan :: "matrix \<Rightarrow> nat \<Rightarrow> nat list \<Rightarrow> real \<times> nat option \<Rightarrow> real \<times> nat option" where
  "pivot_scan M c [] st = st"
| "pivot_scan M c (rr # rrs) (max_val, pivot_row) =
     (let val = \<bar>M ! rr ! c\<bar>
      in if val > max_val then pivot_scan M c rrs (val, Some rr)
         else pivot_scan M c rrs (max_val, pivot_row))"

definition find_pivot :: "matrix \<Rightarrow> nat \<Rightarrow> nat \<Rightarrow> real \<Rightarrow> nat \<Rightarrow> nat option" where
  "find_pivot M r c eps rows = snd (pivot_scan M c [r..<rows] (eps, None))"

text \<open>Lines 66 and 67: the pivot row is moved to row \<open>r\<close>.\<close>

definition move_pivot :: "matrix \<Rightarrow> nat \<Rightarrow> nat \<Rightarrow> error + matrix" where
  "move_pivot M r pivot_row =
     (if pivot_row \<noteq> r then rowswap M (int r) (int pivot_row) else Inr M)"

text \<open>
  Lines 70 to 72: the pivot row is scaled by \<open>1.0 / pivot\<close>, a division of Python floats,
  which raises \<open>ZeroDivisionError\<close> when \<open>pivot\<close> is zero.
\<close>

definition scale_pivot :: "matrix \<Rightarrow> nat \<Rightarrow> nat \<Rightarrow> real \<Rightarrow> error + matrix" where
  "scale_pivot M r c eps =
     (let pivot = M ! r ! c
      in if \<bar>pivot\<bar> > eps
         then (if pivot = 0 then Inl ZeroDivisionError else rowscale M (int r) (1 / pivot))
         else Inr M)"

text \<open>Lines 75 to 80: the loop over all rows that clears column \<open>c\<close>.\<close>

fun eliminate :: "matrix \<Rightarrow> nat \<Rightarrow> nat \<Rightarrow> real \<Rightarrow> nat list \<Rightarrow> error + matrix" where
  "eliminate M r c eps [] = Inr M"
| "eliminate M r c eps (rr # rrs) =
     (if rr = r then eliminate M r c eps rrs
      else let factor = M ! rr ! c
           in if \<bar>factor\<bar> > eps
              then and_then (rowreplacement M (int rr) (int r) 1 (- factor))
                     (\<lambda>M'. eliminate M' r c eps rrs)
              else eliminate M r c eps rrs)"

text \<open>
  Lines 50 to 84: the loop over the columns, with the matrix and the pivot cursor \<open>r\<close> as its
  state. It ends when the columns are used up or at one of the two \<open>break\<close>s.
\<close>

fun rref_loop :: "matrix \<Rightarrow> nat \<Rightarrow> real \<Rightarrow> nat \<Rightarrow> nat list \<Rightarrow> error + matrix" where
  "rref_loop M r eps rows [] = Inr M"
| "rref_loop M r eps rows (c # cs) =
     (if r \<ge> rows then Inr M
      else case find_pivot M r c eps rows of
             None \<Rightarrow> rref_loop M r eps rows cs
           | Some pivot_row \<Rightarrow>
               and_then (move_pivot M r pivot_row) (\<lambda>M1.
               and_then (scale_pivot M1 r c eps) (\<lambda>M2.
               and_then (eliminate M2 r c eps [0..<rows]) (\<lambda>M3.
                 if r + 1 = rows then Inr M3
                 else rref_loop M3 (r + 1) eps rows cs))))"

text \<open>Line 87: \<open>M[abs(M) < eps] = 0.0\<close>.\<close>

definition cleanup :: "matrix \<Rightarrow> real \<Rightarrow> matrix" where
  "cleanup M eps = map (map (\<lambda>x. if \<bar>x\<bar> < eps then 0 else x)) M"

definition rref :: "matrix \<Rightarrow> real \<Rightarrow> error + matrix" where
  "rref A eps =
     and_then (as_float_tensor A) (\<lambda>M.
     and_then (rref_loop M 0 eps (nrows M) [0..<ncols M]) (\<lambda>M'.
       Inr (cleanup M' eps)))"

definition default_eps :: real where
  "default_eps = 1 / 10 ^ 12"

subsection \<open>Tensors as objects in a store\<close>

text \<open>
  In the source a tensor is an object with storage of its own: \<open>clone\<close> allocates, and the row
  assignments write into the tensor they are applied to. To state what a call does to the
  caller's tensors, the operations are modelled a second time over a store: a list of tensor
  contents, in which a tensor is its position. Allocation appends to the store, an assignment
  updates one position, and a raised exception leaves the store as it is at that moment.
  The argument \<open>A\<close> is a tensor of floating-point numbers, for which
  \<open>_as_float_tensor\<close> is \<open>A.clone()\<close>; a nested list given instead is only read, to build a
  new tensor from it.
\<close>

type_synonym addr = nat
type_synonym store = "matrix list"

definition as_float_tensor_st :: "store \<Rightarrow> addr \<Rightarrow> addr \<times> store" where
  "as_float_tensor_st s A = (length s, s @ [s ! A])"

text \<open>An assignment to rows of tensor \<open>M\<close>; \<open>new\<close> is what the statement makes of its contents.\<close>

definition assign_st :: "store \<Rightarrow> addr \<Rightarrow> error + matrix \<Rightarrow> (error + addr) \<times> store" where
  "assign_st s M new = (case new of Inl e \<Rightarrow> (Inl e, s) | Inr M' \<Rightarrow> (Inr M, s[M := M']))"

text \<open>Sequencing: the store is threaded through, the first exception ends the call.\<close>

definition then_st ::
  "(error + addr) \<times> store \<Rightarrow> (addr \<Rightarrow> store \<Rightarrow> (error + addr) \<times> store) \<Rightarrow> (error + addr) \<times> store" where
  "then_st x f = (case x of (Inl e, s) \<Rightarrow> (Inl e, s) | (Inr M, s) \<Rightarrow> f M s)"

definition rowswap_st :: "store \<Rightarrow> addr \<Rightarrow> int \<Rightarrow> int \<Rightarrow> (error + addr) \<times> store" where
  "rowswap_st s A i j =
     (let (M, s1) = as_float_tensor_st s A in assign_st s1 M (swap_rows (s1 ! M) i j))"

definition rowscale_st :: "store \<Rightarrow> addr \<Rightarrow> int \<Rightarrow> real \<Rightarrow> (error + addr) \<times> store" where
  "rowscale_st s A i factor =
     (let (M, s1) = as_float_tensor_st s A in assign_st s1 M (scale_row (s1 ! M) i factor))"

definition rowreplacement_st ::
  "store \<Rightarrow> addr \<Rightarrow> int \<Rightarrow> int \<Rightarrow> real \<Rightarrow> real \<Rightarrow> (error + addr) \<times> store" where
  "rowreplacement_st s A i j j_scale k_scale =
     (let (M, s1) = as_float_tensor_st s A
      in assign_st s1 M (replace_row (s1 ! M) i j j_scale k_scale))"

definition move_pivot_st :: "store \<Rightarrow> addr \<Rightarrow> nat \<Rightarrow> nat \<Rightarrow> (error + addr) \<times> store" where
  "move_pivot_st s M r pivot_row =
     (if pivot_row \<noteq> r then rowswap_st s M (int r) (int pivot_row) else (Inr M, s))"

definition scale_pivot_st :: "store \<Rightarrow> addr \<Rightarrow> nat \<Rightarrow> nat \<Rightarrow> real \<Rightarrow> (error + addr) \<times> store" where
  "scale_pivot_st s M r c eps =
     (let pivot = s ! M ! r ! c
      in if \<bar>pivot\<bar> > eps
         then (if pivot = 0 then (Inl ZeroDivisionError, s)
               else rowscale_st s M (int r) (1 / pivot))
         else (Inr M, s))"

fun eliminate_st ::
  "store \<Rightarrow> addr \<Rightarrow> nat \<Rightarrow> nat \<Rightarrow> real \<Rightarrow> nat list \<Rightarrow> (error + addr) \<times> store" where
  "eliminate_st s M r c eps [] = (Inr M, s)"
| "eliminate_st s M r c eps (rr # rrs) =
     (if rr = r then eliminate_st s M r c eps rrs
      else let factor = s ! M ! rr ! c
           in if \<bar>factor\<bar> > eps
              then then_st (rowreplacement_st s M (int rr) (int r) 1 (- factor))
                     (\<lambda>M' s'. eliminate_st s' M' r c eps rrs)
              else eliminate_st s M r c eps rrs)"

fun rref_loop_st ::
  "store \<Rightarrow> addr \<Rightarrow> nat \<Rightarrow> real \<Rightarrow> nat \<Rightarrow> nat list \<Rightarrow> (error + addr) \<times> store" where
  "rref_loop_st s M r eps rows [] = (Inr M, s)"
| "rref_loop_st s M r eps rows (c # cs) =
     (if r \<ge> rows then (Inr M, s)
      else case find_pivot (s ! M) r c eps rows of
             None \<Rightarrow> rref_loop_st s M r eps rows cs
           | Some pivot_row \<Rightarrow>
               then_st (move_pivot_st s M r pivot_row) (\<lambda>M1 s1.
               then_st (scale_pivot_st s1 M1 r c eps) (\<lambda>M2 s2.
               then_st (eliminate_st s2 M2 r c eps [0..<rows]) (\<lambda>M3 s3.
                 if r + 1 = rows then (Inr M3, s3)
                 else rref_loop_st s3 M3 (r + 1) eps rows cs))))"

definition rref_st :: "store \<Rightarrow> addr \<Rightarrow> real \<Rightarrow> (error + addr) \<times> store" where
  "rref_st s A eps =
     (let (M, s1) = as_float_tensor_st s A
      in then_st (rref_loop_st s1 M 0 eps (nrows (s1 ! M)) [0..<ncols (s1 ! M)]) (\<lambda>M' s2.
           (Inr M', s2[M' := cleanup (s2 ! M') eps])))"

text \<open>
  How an outcome \<open>x\<close> of the store model, started on tensor \<open>M\<close> of store \<open>s\<close>, relates to an
  outcome \<open>y\<close> of the functions on contents: the old store is a prefix of the new one, both
  fail with the same exception or both return, and the returned tensor is \<open>M\<close> itself or one
  allocated since, holding the contents \<open>y\<close>.
\<close>

definition tracks :: "store \<Rightarrow> addr \<Rightarrow> (error + addr) \<times> store \<Rightarrow> error + matrix \<Rightarrow> bool" where
  "tracks s M x y \<longleftrightarrow>
     take (length s) (snd x) = s \<and>
     (case fst x of
        Inl e \<Rightarrow> y = Inl e
      | Inr M' \<Rightarrow> M' < length (snd x) \<and> (M' = M \<or> length s \<le> M') \<and>
                 rectangular (snd x ! M') \<and> y = Inr (snd x ! M'))"

subsection \<open>Reduced row echelon form\<close>

text \<open>
  Reduced row echelon form of the columns left of column \<open>c\<close>, with pivot columns \<open>ps\<close>: the
  pivot columns are in increasing order and left of \<open>c\<close>; the \<open>k\<close>-th of them holds 1 in row
  \<open>k\<close> and 0 elsewhere; and left of column \<open>c\<close> a row is zero before its pivot column, a row
  without pivot is zero altogether. With \<open>c\<close> the number of columns this is the reduced row
  echelon form of the matrix.
\<close>

definition echelon :: "matrix \<Rightarrow> nat list \<Rightarrow> nat \<Rightarrow> bool" where
  "echelon M ps c \<longleftrightarrow>
     sorted_wrt (<) ps \<and> (\<forall>q \<in> set ps. q < c) \<and> length ps \<le> length M \<and>
     (\<forall>k < length ps. \<forall>i < length M. M ! i ! (ps ! k) = (if i = k then 1 else 0)) \<and>
     (\<forall>i < length M. \<forall>j < c. (i < length ps \<longrightarrow> j < ps ! i) \<longrightarrow> M ! i ! j = 0)"

section \<open>Basic facts\<close>

lemma and_then_Inr [simp]: "and_then (Inr v) f = f v"
  by (simp add: and_then_def)

lemma and_then_Inl [simp]: "and_then (Inl e) f = Inl e"
  by (simp add: and_then_def)

lemma and_then_eq_Inr:
  "and_then x f = Inr y \<longleftrightarrow> (\<exists>v. x = Inr v \<and> f v = Inr y)"
  by (cases x) simp_all

lemma rectangular_nth:
  "rectangular M \<longleftrightarrow> (\<forall>i < length M. length (M ! i) = ncols M)"
proof (cases M)
  case Nil
  then show ?thesis by (simp add: rectangular_def)
next
  case (Cons row rest)
  then show ?thesis
    by (auto simp: rectangular_def ncols_def all_set_conv_all_nth less_Suc_eq_0_disj)
qed

lemma ncols_update:
  "i < length M \<Longrightarrow> length row = ncols M \<Longrightarrow> ncols (M[i := row]) = ncols M"
  by (cases M; cases i) (simp_all add: ncols_def)

lemma rectangular_update:
  assumes "rectangular M" and "length row = ncols M"
  shows "rectangular (M[i := row])"
proof (cases "i < length M")
  case True
  with assms show ?thesis
    by (simp add: rectangular_nth ncols_update nth_list_update)
next
  case False
  with assms show ?thesis by (simp add: list_update_beyond)
qed

lemma as_float_tensor_rect [simp]: "rectangular A \<Longrightarrow> as_float_tensor A = Inr A"
  by (simp add: as_float_tensor_def)

lemma row_index_nat [simp]: "n < length M \<Longrightarrow> row_index M (int n) = Inr n"
  by (simp add: row_index_def)

lemma row_index_in_range:
  "0 \<le> i \<Longrightarrow> i < int (length M) \<Longrightarrow> row_index M i = Inr (nat i)"
  by (simp add: row_index_def)

lemma row_index_negative:
  "- int (length M) \<le> i \<Longrightarrow> i < 0 \<Longrightarrow> row_index M i = Inr (nat (int (length M) + i))"
  by (simp add: row_index_def)

lemma row_index_Inr_less: "row_index M i = Inr k \<Longrightarrow> k < length M"
  by (auto simp: row_index_def Let_def split: if_splits)

lemma row_index_error_iff:
  "row_index M i = Inl e \<longleftrightarrow> e = IndexError \<and> (i < - int (length M) \<or> int (length M) \<le> i)"
  by (auto simp: row_index_def Let_def)

lemma row_index_update [simp]: "row_index (M[k := row]) i = row_index M i"
  by (simp add: row_index_def)

lemma rowswap_nat:
  assumes "rectangular M" "i < length M" "j < length M"
  shows "rowswap M (int i) (int j) = Inr (M[i := M ! j, j := M ! i])"
  using assms by (simp add: rowswap_def swap_rows_def)

lemma rectangular_swap:
  assumes "rectangular M" "i < length M" "j < length M"
  shows "rectangular (M[i := M ! j, j := M ! i])"
proof -
  have "length (M ! j) = ncols M" "length (M ! i) = ncols M"
    using assms by (simp_all add: rectangular_nth)
  then show ?thesis
    using assms by (simp add: rectangular_update ncols_update)
qed

lemma swap_swap:
  assumes "i < length M" "j < length M"
  shows "(M[i := M ! j, j := M ! i])[i := M[i := M ! j, j := M ! i] ! j, j := M[i := M ! j, j := M ! i] ! i] = M"
  using assms by (auto simp: list_eq_iff_nth_eq nth_list_update)

section \<open>Row swap\<close>

text \<open>
  C7: for every matrix and all valid row indices \<open>i \<noteq> j\<close> with \<open>0 \<le> i, j < rows\<close>, swapping rows
  \<open>i\<close> and \<open>j\<close> twice gives the matrix back: both calls succeed and the second returns the
  input of the first.
\<close>

theorem rowswap_involution:
  assumes "rectangular M" and "0 \<le> i" and "i < int (nrows M)"
    and "0 \<le> j" and "j < int (nrows M)" and "i \<noteq> j"
  shows "and_then (rowswap M i j) (\<lambda>M'. rowswap M' i j) = Inr M"
proof -
  obtain a b where ab: "i = int a" "j = int b" "a < length M" "b < length M"
    using assms by (metis nrows_def nat_less_iff zless_nat_conj nat_0_le of_nat_less_iff)
  let ?M' = "M[a := M ! b, b := M ! a]"
  have "rowswap M i j = Inr ?M'"
    using assms(1) ab by (simp add: rowswap_nat)
  moreover have "rowswap ?M' i j = Inr M"
    using rowswap_nat [of ?M' a b] rectangular_swap [OF assms(1) ab(3,4)] swap_swap [OF ab(3,4)] ab
    by simp
  ultimately show ?thesis by simp
qed

theorem rowswap_involution_witness:
  "rectangular [[1, 2], [3, 4]] \<and> (0::int) < int (nrows [[1, 2], [3, 4]]) \<and> (0::int) \<noteq> 1
   \<and> and_then (rowswap [[1, 2], [3, 4]] 0 1) (\<lambda>M'. rowswap M' 0 1) = Inr [[1, 2], [3, 4]]"
  using rowswap_involution [of "[[1, 2], [3, 4]]" 0 1]
  by (simp add: rectangular_def nrows_def)

section \<open>Row indices\<close>

lemma row_index_mod:
  "row_index M i =
     (if - int (length M) \<le> i \<and> i < int (length M) then Inr (nat (i mod int (length M)))
      else Inl IndexError)"
proof (cases "0 \<le> i")
  case True
  then show ?thesis by (auto simp: row_index_def Let_def)
next
  case False
  then have neg: "i < 0" by simp
  show ?thesis
  proof (cases "- int (length M) \<le> i")
    case True
    have "(int (length M) + i) mod int (length M) = i mod int (length M)"
      by simp
    moreover from True neg have "(int (length M) + i) mod int (length M) = int (length M) + i"
      by (intro mod_pos_pos_trivial) simp_all
    ultimately have "i mod int (length M) = int (length M) + i"
      by simp
    with True neg show ?thesis by (simp add: row_index_def Let_def)
  next
    case False
    with neg show ?thesis by (simp add: row_index_def Let_def)
  qed
qed

text \<open>
  C5, as stated, fails: the claim has every negative row index rejected with \<open>IndexError\<close>,
  but the source hands the index to the tensor unchecked, and a tensor with two rows takes \<open>-1\<close>
  and \<open>-2\<close> as its last and its first row. Each of the three operations returns a matrix here.
\<close>

theorem negative_index_accepted:
  "(- 1 :: int) < 0 \<and>
   rowswap [[1, 2], [3, 4]] (- 1) 0 = Inr [[3, 4], [1, 2]] \<and>
   rowscale [[1, 2], [3, 4]] (- 1) 2 = Inr [[1, 2], [6, 8]] \<and>
   rowreplacement [[1, 2], [3, 4]] (- 2) (- 1) 1 1 = Inr [[4, 6], [3, 4]]"
  by code_simp

text \<open>
  C5, amended: on a matrix with \<open>rows\<close> rows an elementary operation raises \<open>IndexError\<close>, and
  returns no matrix, exactly when one of its row indices lies outside \<open>-rows .. rows - 1\<close>. For
  indices inside that range it returns the matrix in which row \<open>i mod rows\<close> is swapped, scaled
  or replaced: an index from \<open>0\<close> to \<open>rows - 1\<close> is the row itself and raises nothing, an index
  from \<open>-rows\<close> to \<open>-1\<close> counts from the last row.
\<close>

theorem row_index_errors:
  assumes "rectangular M"
  shows "rowswap M i j =
           (if - int (nrows M) \<le> i \<and> i < int (nrows M) \<and> - int (nrows M) \<le> j \<and> j < int (nrows M)
            then Inr (M[nat (i mod int (nrows M)) := M ! nat (j mod int (nrows M)),
                        nat (j mod int (nrows M)) := M ! nat (i mod int (nrows M))])
            else Inl IndexError) \<and>
         rowscale M i factor =
           (if - int (nrows M) \<le> i \<and> i < int (nrows M)
            then Inr (M[nat (i mod int (nrows M)) :=
                        map (\<lambda>x. factor * x) (M ! nat (i mod int (nrows M)))])
            else Inl IndexError) \<and>
         rowreplacement M i j j_scale k_scale =
           (if - int (nrows M) \<le> i \<and> i < int (nrows M) \<and> - int (nrows M) \<le> j \<and> j < int (nrows M)
            then Inr (M[nat (i mod int (nrows M)) :=
                        map2 (\<lambda>x y. j_scale * x + k_scale * y)
                          (M ! nat (i mod int (nrows M))) (M ! nat (j mod int (nrows M)))])
            else Inl IndexError)"
  using assms
  by (simp add: rowswap_def rowscale_def rowreplacement_def swap_rows_def scale_row_def
      replace_row_def nrows_def row_index_mod)

theorem row_index_errors_witness:
  "rectangular [[1, 2], [3, 4]] \<and>
   rowswap [[1, 2], [3, 4]] (- 2) 1 = Inr [[3, 4], [1, 2]] \<and>
   rowswap [[1, 2], [3, 4]] (- 3) 1 = Inl IndexError \<and>
   rowswap [[1, 2], [3, 4]] 0 2 = Inl IndexError \<and>
   rowscale [[1, 2], [3, 4]] (- 1) 2 = Inr [[1, 2], [6, 8]] \<and>
   rowscale [[1, 2], [3, 4]] 2 2 = Inl IndexError \<and>
   rowreplacement [[1, 2], [3, 4]] 0 (- 1) 1 (- 1) = Inr [[- 2, - 2], [3, 4]] \<and>
   rowreplacement [[1, 2], [3, 4]] 0 (- 3) 1 (- 1) = Inl IndexError"
proof -
  let ?M = "[[1, 2], [3, 4]] :: matrix"
  have r: "rectangular ?M" by (simp add: rectangular_def)
  have n: "nrows ?M = 2" by (simp add: nrows_def)
  from row_index_errors [OF r, of "- 2" 1] have "rowswap ?M (- 2) 1 = Inr [[3, 4], [1, 2]]"
    by (simp add: n)
  moreover from row_index_errors [OF r, of "- 3" 1] have "rowswap ?M (- 3) 1 = Inl IndexError"
    by (simp add: n)
  moreover from row_index_errors [OF r, of 0 2] have "rowswap ?M 0 2 = Inl IndexError"
    by (simp add: n)
  moreover from row_index_errors [OF r, of "- 1" _ 2] have "rowscale ?M (- 1) 2 = Inr [[1, 2], [6, 8]]"
    by (simp add: n)
  moreover from row_index_errors [OF r, of 2 _ 2] have "rowscale ?M 2 2 = Inl IndexError"
    by (simp add: n)
  moreover from row_index_errors [OF r, of 0 "- 1" _ 1 "- 1"]
  have "rowreplacement ?M 0 (- 1) 1 (- 1) = Inr [[- 2, - 2], [3, 4]]"
    by (simp add: n)
  moreover from row_index_errors [OF r, of 0 "- 3" _ 1 "- 1"]
  have "rowreplacement ?M 0 (- 3) 1 (- 1) = Inl IndexError"
    by (simp add: n)
  ultimately show ?thesis using r by simp
qed

section \<open>Row replacement\<close>

lemma map2_same: "map2 f xs xs = map (\<lambda>x. f x x) xs"
  by (induction xs) simp_all

text \<open>
  C6: for every matrix, every row index \<open>i\<close> with \<open>0 \<le> i < rows\<close> and all scale factors, the call
  \<open>rowreplacement M i i j_scale k_scale\<close> succeeds and returns the matrix whose row \<open>i\<close> is
  \<open>(j_scale + k_scale)\<close> times row \<open>i\<close> of the input, with every other row as it was. The
  equality is one of exact arithmetic: the source computes
  \<open>j_scale * row + k_scale * row\<close>, which rounding can make differ from
  \<open>(j_scale + k_scale) * row\<close> in the last bit.
\<close>

theorem rowreplacement_same_row:
  assumes "rectangular M" and "0 \<le> i" and "i < int (nrows M)"
  shows "rowreplacement M i i j_scale k_scale =
           Inr (M[nat i := map (\<lambda>x. (j_scale + k_scale) * x) (M ! nat i)])"
proof -
  from assms have "row_index M i = Inr (nat i)"
    by (simp add: row_index_in_range nrows_def)
  with assms(1) show ?thesis
    by (simp add: rowreplacement_def replace_row_def map2_same distrib_right)
qed

theorem rowreplacement_same_row_witness:
  "rectangular [[1, 2], [3, 4]] \<and> (0::int) \<le> 1 \<and> (1::int) < int (nrows [[1, 2], [3, 4]]) \<and>
   rowreplacement [[1, 2], [3, 4]] 1 1 2 5 = Inr [[1, 2], [21, 28]]"
  using rowreplacement_same_row [of "[[1, 2], [3, 4]]" 1 2 5]
  by (simp add: rectangular_def nrows_def)

section \<open>Pivot search\<close>

lemma pivot_scan_cases:
  "pivot_scan M c rrs (mv, pr) = (mv', pr') \<Longrightarrow>
     (pr' = pr \<and> mv' = mv \<and> (\<forall>rr \<in> set rrs. \<bar>M ! rr ! c\<bar> \<le> mv)) \<or>
     (\<exists>ys p zs. rrs = ys @ p # zs \<and> pr' = Some p \<and> mv' = \<bar>M ! p ! c\<bar> \<and> mv < mv' \<and>
        (\<forall>y \<in> set ys. \<bar>M ! y ! c\<bar> < mv') \<and> (\<forall>z \<in> set zs. \<bar>M ! z ! c\<bar> \<le> mv'))"
proof (induction rrs arbitrary: mv pr)
  case Nil
  then show ?case by simp
next
  case (Cons rr rrs)
  let ?val = "\<bar>M ! rr ! c\<bar>"
  show ?case
  proof (cases "?val > mv")
    case True
    with Cons.prems have "pivot_scan M c rrs (?val, Some rr) = (mv', pr')"
      by simp
    from Cons.IH [OF this] show ?thesis
    proof
      assume "pr' = Some rr \<and> mv' = ?val \<and> (\<forall>x \<in> set rrs. \<bar>M ! x ! c\<bar> \<le> ?val)"
      with True have "rr # rrs = [] @ rr # rrs \<and> pr' = Some rr \<and> mv' = ?val \<and> mv < mv' \<and>
          (\<forall>y \<in> set []. \<bar>M ! y ! c\<bar> < mv') \<and> (\<forall>z \<in> set rrs. \<bar>M ! z ! c\<bar> \<le> mv')"
        by simp
      then show ?thesis by blast
    next
      assume "\<exists>ys p zs. rrs = ys @ p # zs \<and> pr' = Some p \<and> mv' = \<bar>M ! p ! c\<bar> \<and> ?val < mv' \<and>
          (\<forall>y \<in> set ys. \<bar>M ! y ! c\<bar> < mv') \<and> (\<forall>z \<in> set zs. \<bar>M ! z ! c\<bar> \<le> mv')"
      then obtain ys p zs where *: "rrs = ys @ p # zs" "pr' = Some p" "mv' = \<bar>M ! p ! c\<bar>"
          "?val < mv'" "\<forall>y \<in> set ys. \<bar>M ! y ! c\<bar> < mv'" "\<forall>z \<in> set zs. \<bar>M ! z ! c\<bar> \<le> mv'"
        by blast
      with True have "rr # rrs = (rr # ys) @ p # zs \<and> pr' = Some p \<and> mv' = \<bar>M ! p ! c\<bar> \<and> mv < mv' \<and>
          (\<forall>y \<in> set (rr # ys). \<bar>M ! y ! c\<bar> < mv') \<and> (\<forall>z \<in> set zs. \<bar>M ! z ! c\<bar> \<le> mv')"
        by simp
      then show ?thesis by blast
    qed
  next
    case False
    with Cons.prems have "pivot_scan M c rrs (mv, pr) = (mv', pr')"
      by simp
    from Cons.IH [OF this] show ?thesis
    proof
      assume "pr' = pr \<and> mv' = mv \<and> (\<forall>x \<in> set rrs. \<bar>M ! x ! c\<bar> \<le> mv)"
      with False show ?thesis by simp
    next
      assume "\<exists>ys p zs. rrs = ys @ p # zs \<and> pr' = Some p \<and> mv' = \<bar>M ! p ! c\<bar> \<and> mv < mv' \<and>
          (\<forall>y \<in> set ys. \<bar>M ! y ! c\<bar> < mv') \<and> (\<forall>z \<in> set zs. \<bar>M ! z ! c\<bar> \<le> mv')"
      then obtain ys p zs where *: "rrs = ys @ p # zs" "pr' = Some p" "mv' = \<bar>M ! p ! c\<bar>"
          "mv < mv'" "\<forall>y \<in> set ys. \<bar>M ! y ! c\<bar> < mv'" "\<forall>z \<in> set zs. \<bar>M ! z ! c\<bar> \<le> mv'"
        by blast
      with False have "rr # rrs = (rr # ys) @ p # zs \<and> pr' = Some p \<and> mv' = \<bar>M ! p ! c\<bar> \<and> mv < mv' \<and>
          (\<forall>y \<in> set (rr # ys). \<bar>M ! y ! c\<bar> < mv') \<and> (\<forall>z \<in> set zs. \<bar>M ! z ! c\<bar> \<le> mv')"
        by simp
      then show ?thesis by blast
    qed
  qed
qed

lemma upt_split:
  assumes "[r..<rows] = ys @ p # zs"
  shows "r \<le> p \<and> p < rows \<and> set ys = {r..<p} \<and> set zs = {Suc p..<rows}"
proof -
  let ?k = "length ys"
  from assms have "length [r..<rows] = length (ys @ p # zs)" by simp
  then have len: "?k < rows - r" by simp
  have "p = [r..<rows] ! ?k" by (simp add: assms)
  with len have p: "p = r + ?k" by simp
  have "ys = take ?k [r..<rows]" by (simp add: assms)
  with len have ys: "ys = [r..<r + ?k]" by (simp add: take_upt)
  have "zs = drop (Suc ?k) [r..<rows]" by (simp add: assms)
  then have zs: "zs = [Suc (r + ?k)..<rows]" by (simp add: drop_upt)
  from p len ys zs show ?thesis
    by (metis atLeastLessThan_upt le_add1 less_diff_conv add.commute)
qed

lemma find_pivot_None:
  "find_pivot M r c eps rows = None \<longleftrightarrow> (\<forall>rr. r \<le> rr \<and> rr < rows \<longrightarrow> \<bar>M ! rr ! c\<bar> \<le> eps)"
proof -
  obtain mv' pr' where res: "pivot_scan M c [r..<rows] (eps, None) = (mv', pr')"
    by (cases "pivot_scan M c [r..<rows] (eps, None)")
  from pivot_scan_cases [OF res] show ?thesis
  proof
    assume "pr' = None \<and> mv' = eps \<and> (\<forall>rr \<in> set [r..<rows]. \<bar>M ! rr ! c\<bar> \<le> eps)"
    then show ?thesis by (simp add: find_pivot_def res)
  next
    assume "\<exists>ys p zs. [r..<rows] = ys @ p # zs \<and> pr' = Some p \<and> mv' = \<bar>M ! p ! c\<bar> \<and> eps < mv' \<and>
          (\<forall>y \<in> set ys. \<bar>M ! y ! c\<bar> < mv') \<and> (\<forall>z \<in> set zs. \<bar>M ! z ! c\<bar> \<le> mv')"
    then obtain ys p zs where *: "[r..<rows] = ys @ p # zs" "pr' = Some p" "eps < \<bar>M ! p ! c\<bar>"
      by blast
    from upt_split [OF *(1)] have "r \<le> p \<and> p < rows" by simp
    with *(3) have "\<not> (\<forall>rr. r \<le> rr \<and> rr < rows \<longrightarrow> \<bar>M ! rr ! c\<bar> \<le> eps)"
      by (meson not_le)
    moreover have "find_pivot M r c eps rows \<noteq> None"
      using *(2) by (simp add: find_pivot_def res)
    ultimately show ?thesis by blast
  qed
qed

lemma find_pivot_Some:
  assumes "find_pivot M r c eps rows = Some p"
  shows "r \<le> p \<and> p < rows \<and> eps < \<bar>M ! p ! c\<bar> \<and>
         (\<forall>rr. r \<le> rr \<and> rr < rows \<longrightarrow> \<bar>M ! rr ! c\<bar> \<le> \<bar>M ! p ! c\<bar>) \<and>
         (\<forall>rr. r \<le> rr \<and> rr < p \<longrightarrow> \<bar>M ! rr ! c\<bar> < \<bar>M ! p ! c\<bar>)"
proof -
  obtain mv' pr' where res: "pivot_scan M c [r..<rows] (eps, None) = (mv', pr')"
    by (cases "pivot_scan M c [r..<rows] (eps, None)")
  with assms have pr': "pr' = Some p" by (simp add: find_pivot_def)
  from pivot_scan_cases [OF res] pr'
  obtain ys q zs where *: "[r..<rows] = ys @ q # zs" "pr' = Some q" "mv' = \<bar>M ! q ! c\<bar>" "eps < mv'"
      "\<forall>y \<in> set ys. \<bar>M ! y ! c\<bar> < mv'" "\<forall>z \<in> set zs. \<bar>M ! z ! c\<bar> \<le> mv'"
    by auto
  with pr' have q: "q = p" by simp
  from upt_split [OF *(1)] q have **: "r \<le> p" "p < rows" "set ys = {r..<p}" "set zs = {Suc p..<rows}"
    by simp_all
  have "\<bar>M ! rr ! c\<bar> \<le> \<bar>M ! p ! c\<bar>" if "r \<le> rr" "rr < rows" for rr
  proof -
    consider "rr < p" | "rr = p" | "p < rr" by linarith
    then show ?thesis
    proof cases
      case 1
      with that ** have "rr \<in> set ys" by simp
      with *(3,5) q show ?thesis by force
    next
      case 2
      then show ?thesis by simp
    next
      case 3
      with that ** have "rr \<in> set zs" by simp
      with *(3,6) q show ?thesis by force
    qed
  qed
  moreover have "\<bar>M ! rr ! c\<bar> < \<bar>M ! p ! c\<bar>" if "r \<le> rr" "rr < p" for rr
  proof -
    from that ** have "rr \<in> set ys" by simp
    with *(3,5) q show ?thesis by force
  qed
  ultimately show ?thesis
    using ** * q by simp
qed

text \<open>
  C2: for a column \<open>c\<close> processed while the cursor \<open>r\<close> is below \<open>rows\<close>, the search finds no
  pivot exactly when no entry of column \<open>c\<close> in rows \<open>r .. rows - 1\<close> exceeds \<open>eps\<close> in absolute
  value; the loop then goes on to the next column with the same matrix and the same \<open>r\<close>.
  Otherwise the pivot row \<open>p\<close> lies in \<open>r .. rows - 1\<close>, its entry exceeds \<open>eps\<close>, no entry of the
  scanned rows is larger in absolute value, and every scanned row before \<open>p\<close> is strictly
  smaller: among equal maxima the earliest row wins.
\<close>

theorem pivot_selection:
  assumes "r < rows"
  shows "(find_pivot M r c eps rows = None \<longleftrightarrow>
            (\<forall>rr. r \<le> rr \<and> rr < rows \<longrightarrow> \<bar>M ! rr ! c\<bar> \<le> eps)) \<and>
         (find_pivot M r c eps rows = None \<longrightarrow>
            rref_loop M r eps rows (c # cs) = rref_loop M r eps rows cs) \<and>
         (\<forall>p. find_pivot M r c eps rows = Some p \<longrightarrow>
            r \<le> p \<and> p < rows \<and> eps < \<bar>M ! p ! c\<bar> \<and>
            (\<forall>rr. r \<le> rr \<and> rr < rows \<longrightarrow> \<bar>M ! rr ! c\<bar> \<le> \<bar>M ! p ! c\<bar>) \<and>
            (\<forall>rr. r \<le> rr \<and> rr < p \<longrightarrow> \<bar>M ! rr ! c\<bar> < \<bar>M ! p ! c\<bar>))"
proof (intro conjI allI impI)
  show "find_pivot M r c eps rows = None \<longleftrightarrow>
          (\<forall>rr. r \<le> rr \<and> rr < rows \<longrightarrow> \<bar>M ! rr ! c\<bar> \<le> eps)"
    by (rule find_pivot_None)
next
  assume "find_pivot M r c eps rows = None"
  with assms show "rref_loop M r eps rows (c # cs) = rref_loop M r eps rows cs"
    by simp
next
  fix p assume p: "find_pivot M r c eps rows = Some p"
  from find_pivot_Some [OF p] show "r \<le> p" "p < rows" "eps < \<bar>M ! p ! c\<bar>" by simp_all
  fix rr
  { assume "r \<le> rr \<and> rr < rows"
    with find_pivot_Some [OF p] show "\<bar>M ! rr ! c\<bar> \<le> \<bar>M ! p ! c\<bar>" by blast }
  { assume "r \<le> rr \<and> rr < p"
    with find_pivot_Some [OF p] show "\<bar>M ! rr ! c\<bar> < \<bar>M ! p ! c\<bar>" by blast }
qed

theorem pivot_selection_witness:
  "(0::nat) < 3 \<and>
   find_pivot [[0, 3, - 6, 6, 4], [3, - 7, 8, - 5, 8], [3, - 9, 12, - 9, 6]] 0 0 default_eps 3 = Some 1 \<and>
   find_pivot [[1, 0, 2], [0, 0, 3], [0, 0, - 3]] 1 1 default_eps 3 = None \<and>
   find_pivot [[1, 0, 2], [0, 0, 3], [0, 0, - 3]] 1 2 default_eps 3 = Some 1 \<and>
   rref_loop [[1, 0, 2], [0, 0, 3], [0, 0, - 3]] 1 default_eps 3 [1, 2] =
     rref_loop [[1, 0, 2], [0, 0, 3], [0, 0, - 3]] 1 default_eps 3 [2]"
proof -
  have a: "find_pivot [[0, 3, - 6, 6, 4], [3, - 7, 8, - 5, 8], [3, - 9, 12, - 9, 6]] 0 0 default_eps 3 = Some 1"
    by code_simp
  have b: "find_pivot [[1, 0, 2], [0, 0, 3], [0, 0, - 3]] 1 1 default_eps 3 = None"
    by code_simp
  have c: "find_pivot [[1, 0, 2], [0, 0, 3], [0, 0, - 3]] 1 2 default_eps 3 = Some 1"
    by code_simp
  have d: "(1::nat) < 3" by simp
  from pivot_selection [OF d, of "[[1, 0, 2], [0, 0, 3], [0, 0, - 3]]" 1 default_eps "[2]"] a b c
  show ?thesis by simp
qed

section \<open>One column step\<close>

lemma rowscale_nat:
  assumes "rectangular M" "i < length M"
  shows "rowscale M (int i) factor = Inr (M[i := map (\<lambda>x. factor * x) (M ! i)])"
  using assms by (simp add: rowscale_def scale_row_def)

lemma rowreplacement_nat:
  assumes "rectangular M" "i < length M" "j < length M"
  shows "rowreplacement M (int i) (int j) j_scale k_scale =
           Inr (M[i := map2 (\<lambda>x y. j_scale * x + k_scale * y) (M ! i) (M ! j)])"
  using assms by (simp add: rowreplacement_def replace_row_def)

lemma length_row: "rectangular M \<Longrightarrow> i < length M \<Longrightarrow> length (M ! i) = ncols M"
  by (simp add: rectangular_nth)

lemma move_pivot_nat:
  assumes "rectangular M" "r < length M" "p < length M"
  shows "move_pivot M r p = Inr (M[r := M ! p, p := M ! r])"
  using assms by (simp add: move_pivot_def rowswap_nat)

lemma scale_pivot_nat:
  assumes "rectangular M" "r < length M" "eps < \<bar>M ! r ! c\<bar>" "0 \<le> eps"
  shows "scale_pivot M r c eps = Inr (M[r := map (\<lambda>x. (1 / (M ! r ! c)) * x) (M ! r)])"
proof -
  from assms(3,4) have "M ! r ! c \<noteq> 0" by auto
  with assms show ?thesis
    by (simp add: scale_pivot_def rowscale_nat)
qed

lemma eliminate_rows:
  assumes "rectangular M" "r < length M" "\<forall>rr \<in> set rrs. rr < length M" "distinct rrs"
  shows "\<exists>M'. eliminate M r c eps rrs = Inr M' \<and> rectangular M' \<and> length M' = length M \<and>
           ncols M' = ncols M \<and>
           (\<forall>k < length M. M' ! k =
              (if k \<in> set rrs \<and> k \<noteq> r \<and> eps < \<bar>M ! k ! c\<bar>
               then map2 (\<lambda>x y. 1 * x + (- (M ! k ! c)) * y) (M ! k) (M ! r)
               else M ! k))"
  using assms
proof (induction rrs arbitrary: M)
  case Nil
  then show ?case by simp
next
  case (Cons rr rrs)
  show ?case
  proof (cases "rr \<noteq> r \<and> eps < \<bar>M ! rr ! c\<bar>")
    case False
    then have step: "eliminate M r c eps (rr # rrs) = eliminate M r c eps rrs"
      by auto
    from Cons.prems have "\<forall>x \<in> set rrs. x < length M" "distinct rrs" by simp_all
    from Cons.IH [OF Cons.prems(1,2) this] obtain M' where M':
      "eliminate M r c eps rrs = Inr M'" "rectangular M'" "length M' = length M" "ncols M' = ncols M"
      "\<forall>k < length M. M' ! k =
              (if k \<in> set rrs \<and> k \<noteq> r \<and> eps < \<bar>M ! k ! c\<bar>
               then map2 (\<lambda>x y. 1 * x + (- (M ! k ! c)) * y) (M ! k) (M ! r)
               else M ! k)"
      by blast
    have "\<forall>k < length M. M' ! k =
              (if k \<in> set (rr # rrs) \<and> k \<noteq> r \<and> eps < \<bar>M ! k ! c\<bar>
               then map2 (\<lambda>x y. 1 * x + (- (M ! k ! c)) * y) (M ! k) (M ! r)
               else M ! k)"
      using M'(5) False by auto
    with M' step show ?thesis by simp
  next
    case True
    let ?row = "map2 (\<lambda>x y. 1 * x + (- (M ! rr ! c)) * y) (M ! rr) (M ! r)"
    let ?M1 = "M[rr := ?row]"
    from Cons.prems have rr: "rr < length M" "rr \<notin> set rrs" by simp_all
    have rep: "rowreplacement M (int rr) (int r) 1 (- (M ! rr ! c)) = Inr ?M1"
      using Cons.prems(1,2) rr by (simp add: rowreplacement_nat)
    with True have step: "eliminate M r c eps (rr # rrs) = eliminate ?M1 r c eps rrs"
      by simp
    have len: "length ?row = ncols M"
      using Cons.prems(1,2) rr by (simp add: length_row)
    have rect: "rectangular ?M1"
      using Cons.prems(1) len by (rule rectangular_update)
    have nc: "ncols ?M1 = ncols M"
      using rr len by (simp add: ncols_update)
    have "r < length ?M1" "\<forall>x \<in> set rrs. x < length ?M1" "distinct rrs"
      using Cons.prems by simp_all
    from Cons.IH [OF rect this] obtain M' where M':
      "eliminate ?M1 r c eps rrs = Inr M'" "rectangular M'" "length M' = length ?M1" "ncols M' = ncols ?M1"
      "\<forall>k < length ?M1. M' ! k =
              (if k \<in> set rrs \<and> k \<noteq> r \<and> eps < \<bar>?M1 ! k ! c\<bar>
               then map2 (\<lambda>x y. 1 * x + (- (?M1 ! k ! c)) * y) (?M1 ! k) (?M1 ! r)
               else ?M1 ! k)"
      by blast
    have "M' ! k =
              (if k \<in> set (rr # rrs) \<and> k \<noteq> r \<and> eps < \<bar>M ! k ! c\<bar>
               then map2 (\<lambda>x y. 1 * x + (- (M ! k ! c)) * y) (M ! k) (M ! r)
               else M ! k)" if k: "k < length M" for k
    proof (cases "k = rr")
      case True
      with rr k M'(5) have "M' ! k = ?M1 ! rr" by simp
      with True \<open>rr \<noteq> r \<and> eps < \<bar>M ! rr ! c\<bar>\<close> rr show ?thesis by simp
    next
      case False
      with M'(5) k True show ?thesis by (simp add: nth_list_update)
    qed
    with M' step nc show ?thesis by simp
  qed
qed

lemma column_step:
  assumes "rectangular M" "0 \<le> eps" "find_pivot M r c eps (length M) = Some p"
  shows "\<exists>M1 M2 M3. move_pivot M r p = Inr M1 \<and> scale_pivot M1 r c eps = Inr M2 \<and>
           eliminate M2 r c eps [0..<length M] = Inr M3 \<and>
           M1 = M[r := M ! p, p := M ! r] \<and>
           eps < \<bar>M1 ! r ! c\<bar> \<and>
           M2 = M1[r := map (\<lambda>x. (1 / (M1 ! r ! c)) * x) (M1 ! r)] \<and>
           rectangular M2 \<and> length M2 = length M \<and> ncols M2 = ncols M \<and>
           rectangular M3 \<and> length M3 = length M \<and> ncols M3 = ncols M \<and>
           (\<forall>k < length M. M3 ! k =
              (if k \<noteq> r \<and> eps < \<bar>M2 ! k ! c\<bar>
               then map2 (\<lambda>x y. 1 * x + (- (M2 ! k ! c)) * y) (M2 ! k) (M2 ! r)
               else M2 ! k))"
proof -
  from find_pivot_Some [OF assms(3)] have p: "r \<le> p" "p < length M" "eps < \<bar>M ! p ! c\<bar>"
    by simp_all
  then have r: "r < length M" by simp
  let ?M1 = "M[r := M ! p, p := M ! r]"
  have m1: "move_pivot M r p = Inr ?M1"
    using assms(1) r p(2) by (rule move_pivot_nat)
  have rect1: "rectangular ?M1"
    using assms(1) r p(2) by (rule rectangular_swap)
  have row1: "?M1 ! r = M ! p"
    using r p(2) by (simp add: nth_list_update)
  with p(3) have piv: "eps < \<bar>?M1 ! r ! c\<bar>" by simp
  have nc1: "ncols ?M1 = ncols M"
    using assms(1) r p(2) by (simp add: ncols_update length_row)
  let ?M2 = "?M1[r := map (\<lambda>x. (1 / (?M1 ! r ! c)) * x) (?M1 ! r)]"
  have m2: "scale_pivot ?M1 r c eps = Inr ?M2"
    using rect1 _ piv assms(2) by (rule scale_pivot_nat) (simp add: r)
  have "length (?M1 ! r) = ncols ?M1"
    using rect1 by (rule length_row) (simp add: r)
  then have len2: "length (map (\<lambda>x. (1 / (?M1 ! r ! c)) * x) (?M1 ! r)) = ncols ?M1"
    by simp
  have rect2: "rectangular ?M2"
    using rect1 len2 by (rule rectangular_update)
  have nc2: "ncols ?M2 = ncols M"
    using ncols_update [of r ?M1, OF _ len2] r nc1 by simp
  have "r < length ?M2" "\<forall>rr \<in> set [0..<length M]. rr < length ?M2" "distinct [0..<length M]"
    using r by simp_all
  from eliminate_rows [OF rect2 this, of c eps] obtain M3 where M3:
    "eliminate ?M2 r c eps [0..<length M] = Inr M3" "rectangular M3" "length M3 = length ?M2"
    "ncols M3 = ncols ?M2"
    "\<forall>k < length ?M2. M3 ! k =
              (if k \<in> set [0..<length M] \<and> k \<noteq> r \<and> eps < \<bar>?M2 ! k ! c\<bar>
               then map2 (\<lambda>x y. 1 * x + (- (?M2 ! k ! c)) * y) (?M2 ! k) (?M2 ! r)
               else ?M2 ! k)"
    by blast
  have "\<forall>k < length M. M3 ! k =
              (if k \<noteq> r \<and> eps < \<bar>?M2 ! k ! c\<bar>
               then map2 (\<lambda>x y. 1 * x + (- (?M2 ! k ! c)) * y) (?M2 ! k) (?M2 ! r)
               else ?M2 ! k)"
    using M3(5) by simp
  with m1 m2 M3(1-4) piv rect2 nc2 show ?thesis
    by (intro exI [of _ ?M1] exI [of _ ?M2] exI [of _ M3]) simp
qed

text \<open>
  C3: after a pivot is established, every other row should end with 0 in the pivot column, as
  the docstring of \<open>rref\<close> has it (eliminate that column in all other rows, above and below,
  to 0). The elimination loop replaces a row only if its entry in the pivot column exceeds
  \<open>eps\<close> in absolute value, and leaves any other row, and its entry, as they are. With
  \<open>eps = 1/4\<close> the pivot of column 0 is row 0, already 1, and row 1 keeps its \<open>3/16\<close>; the
  scaling of row 1 for column 1 then doubles it, the cleanup keeps it, and the result holds
  \<open>3/8\<close> under the pivot of column 0.
\<close>

theorem elimination_skips_small_entries:
  "find_pivot [[1, 0], [3 / 16, 1 / 2]] 0 0 (1 / 4) 2 = Some 0 \<and>
   move_pivot [[1, 0], [3 / 16, 1 / 2]] 0 0 = Inr [[1, 0], [3 / 16, 1 / 2]] \<and>
   scale_pivot [[1, 0], [3 / 16, 1 / 2]] 0 0 (1 / 4) = Inr [[1, 0], [3 / 16, 1 / 2]] \<and>
   eliminate [[1, 0], [3 / 16, 1 / 2]] 0 0 (1 / 4) [0..<2] = Inr [[1, 0], [3 / 16, 1 / 2]] \<and>
   rref [[1, 0], [3 / 16, 1 / 2]] (1 / 4) = Inr [[1, 0], [3 / 8, 1]]"
  by code_simp

section \<open>The reduction raises no exception\<close>

lemma rref_loop_total:
  assumes "rectangular M" "length M = rows" "0 \<le> eps"
  shows "\<exists>M'. rref_loop M r eps rows cs = Inr M' \<and> rectangular M' \<and> length M' = rows \<and>
           ncols M' = ncols M"
  using assms
proof (induction cs arbitrary: M r)
  case Nil
  then show ?case by simp
next
  case (Cons c cs)
  show ?case
  proof (cases "rows \<le> r")
    case True
    with Cons.prems show ?thesis by simp
  next
    case False
    show ?thesis
    proof (cases "find_pivot M r c eps rows")
      case None
      with False have "rref_loop M r eps rows (c # cs) = rref_loop M r eps rows cs"
        by simp
      with Cons.IH [OF Cons.prems] show ?thesis by simp
    next
      case (Some p)
      with Cons.prems have "find_pivot M r c eps (length M) = Some p" by simp
      from column_step [OF Cons.prems(1,3) this] obtain M1 M2 M3 where st:
        "move_pivot M r p = Inr M1" "scale_pivot M1 r c eps = Inr M2"
        "eliminate M2 r c eps [0..<length M] = Inr M3"
        "rectangular M3" "length M3 = length M" "ncols M3 = ncols M"
        by blast
      have eq: "rref_loop M r eps rows (c # cs) =
                  (if r + 1 = rows then Inr M3 else rref_loop M3 (r + 1) eps rows cs)"
        using False Some st(1-3) Cons.prems(2) by simp
      from Cons.IH [of M3 "r + 1"] st(4-6) Cons.prems(2,3)
      obtain M' where "rref_loop M3 (r + 1) eps rows cs = Inr M'" "rectangular M'"
          "length M' = rows" "ncols M' = ncols M"
        by auto
      with eq st(4-6) Cons.prems(2) show ?thesis by auto
    qed
  qed
qed

lemma rectangular_cleanup: "rectangular M \<Longrightarrow> rectangular (cleanup M eps)"
  by (simp add: rectangular_nth cleanup_def ncols_def split: list.splits)

lemma rref_total:
  assumes "rectangular A" "0 \<le> eps"
  shows "\<exists>R. rref A eps = Inr R \<and> rectangular R \<and> length R = length A \<and> ncols R = ncols A"
proof -
  from rref_loop_total [OF assms(1) _ assms(2), of "nrows A" 0 "[0..<ncols A]"]
  obtain M' where M': "rref_loop A 0 eps (nrows A) [0..<ncols A] = Inr M'" "rectangular M'"
      "length M' = length A" "ncols M' = ncols A"
    by (auto simp: nrows_def)
  have "ncols (cleanup M' eps) = ncols M'"
    by (simp add: cleanup_def ncols_def split: list.splits)
  moreover have "length (cleanup M' eps) = length M'"
    by (simp add: cleanup_def)
  ultimately show ?thesis
    using M' assms(1) by (simp add: rref_def rectangular_cleanup)
qed

text \<open>
  C10: for every \<open>eps > 0\<close> and every input, \<open>rref\<close> does not raise \<open>ZeroDivisionError\<close>. In
  any state of the loop in which the search has found a pivot row, the swap succeeds and the
  entry then read as \<open>pivot\<close> exceeds \<open>eps\<close> in absolute value, hence is not zero; the guard
  of the scaling step holds, and the step is the call of \<open>rowscale\<close> with \<open>1 / pivot\<close>.
\<close>

theorem pivot_divisor_nonzero:
  assumes "0 < eps"
  shows "rref A eps \<noteq> Inl ZeroDivisionError \<and>
         (\<forall>M r c p. rectangular M \<and> find_pivot M r c eps (nrows M) = Some p \<longrightarrow>
            (\<exists>M1. move_pivot M r p = Inr M1 \<and> eps < \<bar>M1 ! r ! c\<bar> \<and> M1 ! r ! c \<noteq> 0 \<and>
                  scale_pivot M1 r c eps = rowscale M1 (int r) (1 / (M1 ! r ! c))))"
proof (intro conjI allI impI)
  show "rref A eps \<noteq> Inl ZeroDivisionError"
  proof (cases "rectangular A")
    case True
    from rref_total [OF True, of eps] assms show ?thesis by auto
  next
    case False
    then show ?thesis by (simp add: rref_def as_float_tensor_def)
  qed
next
  fix M r c p
  assume "rectangular M \<and> find_pivot M r c eps (nrows M) = Some p"
  then have a: "rectangular M" "find_pivot M r c eps (length M) = Some p"
    by (simp_all add: nrows_def)
  from assms have "0 \<le> eps" by simp
  from column_step [OF a(1) this a(2)] obtain M1 where
    "move_pivot M r p = Inr M1" "eps < \<bar>M1 ! r ! c\<bar>"
    by blast
  moreover from this assms have "M1 ! r ! c \<noteq> 0" by auto
  ultimately show "\<exists>M1. move_pivot M r p = Inr M1 \<and> eps < \<bar>M1 ! r ! c\<bar> \<and> M1 ! r ! c \<noteq> 0 \<and>
                  scale_pivot M1 r c eps = rowscale M1 (int r) (1 / (M1 ! r ! c))"
    by (auto simp: scale_pivot_def)
qed

theorem pivot_divisor_nonzero_witness:
  "0 < default_eps \<and>
   rref [[0, 3, - 6, 6, 4], [3, - 7, 8, - 5, 8], [3, - 9, 12, - 9, 6]] default_eps
     \<noteq> Inl ZeroDivisionError \<and>
   (\<exists>M1. move_pivot [[0, 3, - 6, 6, 4], [3, - 7, 8, - 5, 8], [3, - 9, 12, - 9, 6]] 0 1 = Inr M1 \<and>
      default_eps < \<bar>M1 ! 0 ! 0\<bar> \<and> M1 ! 0 ! 0 \<noteq> 0 \<and>
      scale_pivot M1 0 0 default_eps = rowscale M1 (int 0) (1 / (M1 ! 0 ! 0)))"
proof -
  let ?A = "[[0, 3, - 6, 6, 4], [3, - 7, 8, - 5, 8], [3, - 9, 12, - 9, 6]] :: matrix"
  have e: "0 < default_eps" by (simp add: default_eps_def)
  have r: "rectangular ?A" by (simp add: rectangular_def)
  have f: "find_pivot ?A 0 0 default_eps (nrows ?A) = Some 1" by code_simp
  from pivot_divisor_nonzero [OF e, of ?A] r f e show ?thesis by blast
qed

section \<open>Reducing twice\<close>

lemma eliminate_nothing:
  assumes rect: "rectangular M" and r: "r < length M"
    and zero: "\<forall>i < length M. i \<noteq> r \<longrightarrow> M ! i ! c = 0" and eps: "0 \<le> eps"
  shows "eliminate M r c eps [0..<length M] = Inr M"
proof -
  have "\<forall>rr \<in> set [0..<length M]. rr < length M" "distinct [0..<length M]" by simp_all
  from eliminate_rows [OF rect r this, of c eps] obtain M' where M':
    "eliminate M r c eps [0..<length M] = Inr M'" "length M' = length M"
    "\<forall>k < length M. M' ! k =
              (if k \<in> set [0..<length M] \<and> k \<noteq> r \<and> eps < \<bar>M ! k ! c\<bar>
               then map2 (\<lambda>x y. 1 * x + (- (M ! k ! c)) * y) (M ! k) (M ! r)
               else M ! k)"
    by blast
  have "M' ! k = M ! k" if "k < length M" for k
    using M'(3) zero eps that by auto
  with M'(2) have "M' = M" by (simp add: list_eq_iff_nth_eq)
  with M'(1) show ?thesis by simp
qed

lemma scale_by_one:
  assumes rect: "rectangular M" and r: "r < length M" and one: "M ! r ! c = 1"
    and eps: "0 \<le> eps" "eps < 1"
  shows "scale_pivot M r c eps = Inr M"
proof -
  have "scale_pivot M r c eps = Inr (M[r := map (\<lambda>x. (1 / (M ! r ! c)) * x) (M ! r)])"
    using rect r by (rule scale_pivot_nat) (simp_all add: one eps)
  also have "M[r := map (\<lambda>x. (1 / (M ! r ! c)) * x) (M ! r)] = M"
    by (simp add: one)
  finally show ?thesis .
qed

lemma rref_loop_fixed:
  assumes rect: "rectangular M" and ech: "echelon M ps C"
    and fin: "C = ncols M \<or> length ps = length M"
    and c: "c \<le> ncols M" and r: "r \<le> length ps"
    and before: "\<forall>k < r. ps ! k < c"
    and after: "\<forall>k. r \<le> k \<and> k < length ps \<longrightarrow> c \<le> ps ! k"
    and eps: "0 \<le> eps" "eps < 1"
  shows "rref_loop M r eps (length M) [c..<ncols M] = Inr M"
  using c r before after
proof (induction "ncols M - c" arbitrary: c r)
  case 0
  then have "ncols M \<le> c" by simp
  then have "[c..<ncols M] = []" by simp
  then show ?case by (simp only: rref_loop.simps)
next
  case (Suc n)
  then have c: "c < ncols M" by simp
  then have cs: "[c..<ncols M] = c # [Suc c..<ncols M]" by (rule upt_conv_Cons)
  have n: "n = ncols M - Suc c" using Suc.hyps(2) by simp
  from ech have old: "sorted_wrt (<) ps" "\<forall>q \<in> set ps. q < C" "length ps \<le> length M"
      "\<forall>k < length ps. \<forall>i < length M. M ! i ! (ps ! k) = (if i = k then 1 else 0)"
      "\<forall>i < length M. \<forall>j < C. (i < length ps \<longrightarrow> j < ps ! i) \<longrightarrow> M ! i ! j = 0"
    by (simp_all add: echelon_def)
  show ?case
  proof (cases "length M \<le> r")
    case True
    then show ?thesis unfolding cs by simp
  next
    case False
    then have rM: "r < length M" by simp
    show ?thesis
    proof (cases "r < length ps \<and> ps ! r = c")
      case True
      then have rp: "r < length ps" and pr: "ps ! r = c" by simp_all
      have unit: "M ! i ! c = (if i = r then 1 else 0)" if "i < length M" for i
        using old(4) rp that pr by blast
      have "\<not> \<bar>M ! r ! c\<bar> \<le> eps"
        using unit [OF rM] eps(2) by simp
      then have "find_pivot M r c eps (length M) \<noteq> None"
        using rM unfolding find_pivot_None by blast
      then obtain p where p: "find_pivot M r c eps (length M) = Some p" by blast
      from find_pivot_Some [OF p] have "p < length M" "eps < \<bar>M ! p ! c\<bar>" by simp_all
      with unit [of p] eps(1) have "p = r" by (auto split: if_splits)
      with p have fp: "find_pivot M r c eps (length M) = Some r" by simp
      have mv: "move_pivot M r r = Inr M" by (simp add: move_pivot_def)
      have sc: "scale_pivot M r c eps = Inr M"
        using rect rM unit [OF rM] eps by (intro scale_by_one) simp_all
      have el: "eliminate M r c eps [0..<length M] = Inr M"
        using rect rM unit eps(1) by (intro eliminate_nothing) simp_all
      have step: "rref_loop M r eps (length M) [c..<ncols M] =
          (if r + 1 = length M then Inr M
           else rref_loop M (r + 1) eps (length M) [Suc c..<ncols M])"
        unfolding cs using rM fp mv sc el by simp
      have b: "\<forall>k < r + 1. ps ! k < Suc c"
        using Suc.prems(3) pr by (auto simp: less_Suc_eq)
      have a: "\<forall>k. r + 1 \<le> k \<and> k < length ps \<longrightarrow> Suc c \<le> ps ! k"
      proof (intro allI impI)
        fix k assume k: "r + 1 \<le> k \<and> k < length ps"
        then have "ps ! r < ps ! k"
          using old(1) by (simp add: sorted_wrt_nth_less)
        with pr show "Suc c \<le> ps ! k" by simp
      qed
      from c rp have "Suc c \<le> ncols M" "r + 1 \<le> length ps" by simp_all
      from Suc.hyps(1) [OF n this b a] step show ?thesis by simp
    next
      case False
      have gt: "c < ps ! k" if k: "r \<le> k" "k < length ps" for k
      proof (cases "k = r")
        case True
        with False k Suc.prems(4) show ?thesis by (simp add: le_neq_implies_less)
      next
        case False
        with k have "r < k" by simp
        with k(2) old(1) have "ps ! r < ps ! k" by (simp add: sorted_wrt_nth_less)
        moreover from k Suc.prems(4) have "c \<le> ps ! r" by simp
        ultimately show ?thesis by simp
      qed
      have zero: "M ! i ! c = 0" if i: "r \<le> i" "i < length M" for i
      proof (cases "i < length ps")
        case True
        from gt [OF i(1) True] have lt: "c < ps ! i" .
        moreover from old(2) True have "ps ! i < C" by simp
        ultimately have "c < C" by simp
        with old(5) i(2) lt show ?thesis by blast
      next
        case False
        with i(2) have "length ps \<noteq> length M" by simp
        with fin c have "c < C" by simp
        with old(5) i(2) False show ?thesis by blast
      qed
      with eps(1) have fp: "find_pivot M r c eps (length M) = None"
        by (simp add: find_pivot_None)
      have step: "rref_loop M r eps (length M) [c..<ncols M] =
          rref_loop M r eps (length M) [Suc c..<ncols M]"
        unfolding cs using rM fp by simp
      have b: "\<forall>k < r. ps ! k < Suc c"
        using Suc.prems(3) by (auto simp: less_Suc_eq)
      have a: "\<forall>k. r \<le> k \<and> k < length ps \<longrightarrow> Suc c \<le> ps ! k"
        using gt by (simp add: Suc_leI)
      from c have "Suc c \<le> ncols M" by simp
      from Suc.hyps(1) [OF n this Suc.prems(2) b a] step show ?thesis by simp
    qed
  qed
qed

text \<open>
  A matrix in reduced row echelon form, with no entry that the cleanup would zero, is returned
  as it is, for every tolerance from 0 up to, but not including, the pivot value 1. No
  arithmetic but the scaling by \<open>1 / 1\<close> takes place.
\<close>

lemma rref_fixes_echelon:
  assumes "rectangular R" and "echelon R ps c" and "c = ncols R \<or> length ps = length R"
    and "0 \<le> eps" and "eps < 1" and "cleanup R eps = R"
  shows "rref R eps = Inr R"
proof -
  have "rref_loop R 0 eps (length R) [0..<ncols R] = Inr R"
    using assms(1-3) by (rule rref_loop_fixed) (use assms(4,5) in simp_all)
  with assms(1,6) show ?thesis
    by (simp add: rref_def nrows_def)
qed

text \<open>
  C8: \<open>rref\<close> applied to its own output should return that output. It does not: an entry of
  absolute value at most \<open>eps\<close> is passed over as a pivot but kept, and the scaling of its row
  for a later pivot can lift it above \<open>eps\<close>. With \<open>eps = 1/8\<close> the matrix \<open>[[1/8, 1/4]]\<close> is
  reduced to \<open>[[1/2, 1]]\<close>, which is not in reduced row echelon form (its leading entry is
  \<open>1/2\<close>), and a second run reduces that to \<open>[[1, 2]]\<close>. The same happens with the default
  \<open>eps\<close> (there the entries are decimal fractions, which floating point rounds; the run of
  the source takes the same branches). By \<open>rref_fixes_echelon\<close> an output in reduced row
  echelon form would have been returned unchanged.
\<close>

theorem rref_not_idempotent:
  "rref [[1 / 8, 1 / 4]] (1 / 8) = Inr [[1 / 2, 1]] \<and>
   rref [[1 / 2, 1]] (1 / 8) = Inr [[1, 2]] \<and>
   rref [[1 / 10 ^ 12, 1 / 10 ^ 6]] default_eps = Inr [[1 / 10 ^ 6, 1]] \<and>
   rref [[1 / 10 ^ 6, 1]] default_eps = Inr [[1, 10 ^ 6]]"
  by code_simp

section \<open>The caller's tensors are left alone\<close>

lemma take_eq_length_le: "take n xs = ys \<Longrightarrow> length ys = n \<Longrightarrow> n \<le> length xs"
  by (metis length_take min.absorb_iff2 min.commute)

lemma tracks_same:
  "M < length s \<Longrightarrow> rectangular (s ! M) \<Longrightarrow> tracks s M (Inr M, s) (Inr (s ! M))"
  by (simp add: tracks_def)

lemma tracks_then:
  assumes x: "tracks s M x y"
    and f: "\<And>M' s'. x = (Inr M', s') \<Longrightarrow> M' < length s' \<Longrightarrow> rectangular (s' ! M') \<Longrightarrow>
              tracks s' M' (f M' s') (g (s' ! M'))"
  shows "tracks s M (then_st x f) (and_then y g)"
proof (cases x)
  case (Pair res s')
  show ?thesis
  proof (cases res)
    case (Inl e)
    with Pair x show ?thesis by (simp add: tracks_def then_st_def)
  next
    case (Inr M')
    with Pair x have s': "take (length s) s' = s" "M' < length s'" "M' = M \<or> length s \<le> M'"
        "rectangular (s' ! M')" "y = Inr (s' ! M')"
      by (simp_all add: tracks_def)
    from s'(1) have le: "length s \<le> length s'" by (rule take_eq_length_le) simp
    from f [of M' s'] Pair Inr s' have t: "tracks s' M' (f M' s') (g (s' ! M'))" by simp
    then have "take (length s') (snd (f M' s')) = s'" by (simp add: tracks_def)
    then have "take (length s) (take (length s') (snd (f M' s'))) = take (length s) s'" by simp
    with le s'(1) have frame: "take (length s) (snd (f M' s')) = s" by (simp add: min_def)
    have eq: "then_st x f = f M' s'" "and_then y g = g (s' ! M')"
      using Pair Inr s'(5) by (simp_all add: then_st_def)
    show ?thesis
    proof (cases "fst (f M' s')")
      case (Inl e)
      with t frame eq show ?thesis by (simp add: tracks_def)
    next
      case (Inr M'')
      with t have "M'' < length (snd (f M' s'))" "M'' = M' \<or> length s' \<le> M''"
          "rectangular (snd (f M' s') ! M'')" "g (s' ! M') = Inr (snd (f M' s') ! M'')"
        by (simp_all add: tracks_def)
      moreover from this(2) s'(3) le have "M'' = M \<or> length s \<le> M''" by auto
      ultimately show ?thesis using frame eq Inr by (simp add: tracks_def)
    qed
  qed
qed

lemma swap_rows_rectangular:
  "rectangular M \<Longrightarrow> swap_rows M i j = Inr M' \<Longrightarrow> rectangular M'"
  by (auto simp: swap_rows_def and_then_eq_Inr dest!: row_index_Inr_less intro: rectangular_swap)

lemma scale_row_rectangular:
  "rectangular M \<Longrightarrow> scale_row M i factor = Inr M' \<Longrightarrow> rectangular M'"
  by (auto simp: scale_row_def and_then_eq_Inr length_row dest!: row_index_Inr_less
      intro!: rectangular_update)

lemma replace_row_rectangular:
  "rectangular M \<Longrightarrow> replace_row M i j j_scale k_scale = Inr M' \<Longrightarrow> rectangular M'"
  by (auto simp: replace_row_def and_then_eq_Inr length_row dest!: row_index_Inr_less
      intro!: rectangular_update)

lemma copy_then_assign:
  "(let (M, s1) = as_float_tensor_st s A in assign_st s1 M (op (s1 ! M))) =
     (case op (s ! A) of Inl e \<Rightarrow> (Inl e, s @ [s ! A]) | Inr M' \<Rightarrow> (Inr (length s), s @ [M']))"
  by (simp add: as_float_tensor_st_def assign_st_def split: sum.splits)

lemma tracks_copy_then_assign:
  assumes "A < length s" "rectangular (s ! A)"
    and "\<And>M'. op (s ! A) = Inr M' \<Longrightarrow> rectangular M'"
  shows "tracks s A (let (M, s1) = as_float_tensor_st s A in assign_st s1 M (op (s1 ! M)))
           (and_then (as_float_tensor (s ! A)) op)"
  using assms unfolding copy_then_assign
  by (auto simp: tracks_def split: sum.splits)

lemma tracks_rowswap:
  assumes "A < length s" "rectangular (s ! A)"
  shows "tracks s A (rowswap_st s A i j) (rowswap (s ! A) i j)"
  unfolding rowswap_st_def rowswap_def
  using assms by (rule tracks_copy_then_assign) (rule swap_rows_rectangular [OF assms(2)])

lemma tracks_rowscale:
  assumes "A < length s" "rectangular (s ! A)"
  shows "tracks s A (rowscale_st s A i factor) (rowscale (s ! A) i factor)"
  unfolding rowscale_st_def rowscale_def
  using assms by (rule tracks_copy_then_assign) (rule scale_row_rectangular [OF assms(2)])

lemma tracks_rowreplacement:
  assumes "A < length s" "rectangular (s ! A)"
  shows "tracks s A (rowreplacement_st s A i j j_scale k_scale)
           (rowreplacement (s ! A) i j j_scale k_scale)"
  unfolding rowreplacement_st_def rowreplacement_def
  using assms by (rule tracks_copy_then_assign) (rule replace_row_rectangular [OF assms(2)])

lemma tracks_move_pivot:
  assumes "M < length s" "rectangular (s ! M)"
  shows "tracks s M (move_pivot_st s M r p) (move_pivot (s ! M) r p)"
  using assms by (simp add: move_pivot_st_def move_pivot_def tracks_rowswap tracks_same)

lemma tracks_scale_pivot:
  assumes "M < length s" "rectangular (s ! M)"
  shows "tracks s M (scale_pivot_st s M r c eps) (scale_pivot (s ! M) r c eps)"
  using assms
  by (simp add: scale_pivot_st_def scale_pivot_def Let_def tracks_rowscale tracks_same)
     (simp add: tracks_def)

lemma tracks_eliminate:
  assumes "M < length s" "rectangular (s ! M)"
  shows "tracks s M (eliminate_st s M r c eps rrs) (eliminate (s ! M) r c eps rrs)"
  using assms
proof (induction rrs arbitrary: s M)
  case Nil
  then show ?case by (simp add: tracks_same)
next
  case (Cons rr rrs)
  show ?case
  proof (cases "rr \<noteq> r \<and> eps < \<bar>s ! M ! rr ! c\<bar>")
    case False
    with Cons.IH [OF Cons.prems] show ?thesis by auto
  next
    case True
    have "tracks s M
        (then_st (rowreplacement_st s M (int rr) (int r) 1 (- (s ! M ! rr ! c)))
           (\<lambda>M' s'. eliminate_st s' M' r c eps rrs))
        (and_then (rowreplacement (s ! M) (int rr) (int r) 1 (- (s ! M ! rr ! c)))
           (\<lambda>M'. eliminate M' r c eps rrs))"
      using tracks_rowreplacement [OF Cons.prems] by (rule tracks_then) (rule Cons.IH)
    with True show ?thesis by simp
  qed
qed

lemma tracks_rref_loop:
  assumes "M < length s" "rectangular (s ! M)"
  shows "tracks s M (rref_loop_st s M r eps rows cs) (rref_loop (s ! M) r eps rows cs)"
  using assms
proof (induction cs arbitrary: s M r)
  case Nil
  then show ?case by (simp add: tracks_same)
next
  case (Cons c cs)
  show ?case
  proof (cases "rows \<le> r")
    case True
    with Cons.prems show ?thesis by (simp add: tracks_same)
  next
    case False
    show ?thesis
    proof (cases "find_pivot (s ! M) r c eps rows")
      case None
      with False Cons.IH [OF Cons.prems] show ?thesis by simp
    next
      case (Some p)
      have "tracks s M
          (then_st (move_pivot_st s M r p) (\<lambda>M1 s1.
           then_st (scale_pivot_st s1 M1 r c eps) (\<lambda>M2 s2.
           then_st (eliminate_st s2 M2 r c eps [0..<rows]) (\<lambda>M3 s3.
             if r + 1 = rows then (Inr M3, s3)
             else rref_loop_st s3 M3 (r + 1) eps rows cs))))
          (and_then (move_pivot (s ! M) r p) (\<lambda>M1.
           and_then (scale_pivot M1 r c eps) (\<lambda>M2.
           and_then (eliminate M2 r c eps [0..<rows]) (\<lambda>M3.
             if r + 1 = rows then Inr M3
             else rref_loop M3 (r + 1) eps rows cs))))"
        using tracks_move_pivot [OF Cons.prems]
      proof (rule tracks_then)
        fix M1 s1 assume a1: "M1 < length s1" "rectangular (s1 ! M1)"
        show "tracks s1 M1
          (then_st (scale_pivot_st s1 M1 r c eps) (\<lambda>M2 s2.
           then_st (eliminate_st s2 M2 r c eps [0..<rows]) (\<lambda>M3 s3.
             if r + 1 = rows then (Inr M3, s3)
             else rref_loop_st s3 M3 (r + 1) eps rows cs)))
          (and_then (scale_pivot (s1 ! M1) r c eps) (\<lambda>M2.
           and_then (eliminate M2 r c eps [0..<rows]) (\<lambda>M3.
             if r + 1 = rows then Inr M3
             else rref_loop M3 (r + 1) eps rows cs)))"
          using tracks_scale_pivot [OF a1]
        proof (rule tracks_then)
          fix M2 s2 assume a2: "M2 < length s2" "rectangular (s2 ! M2)"
          show "tracks s2 M2
            (then_st (eliminate_st s2 M2 r c eps [0..<rows]) (\<lambda>M3 s3.
               if r + 1 = rows then (Inr M3, s3)
               else rref_loop_st s3 M3 (r + 1) eps rows cs))
            (and_then (eliminate (s2 ! M2) r c eps [0..<rows]) (\<lambda>M3.
               if r + 1 = rows then Inr M3
               else rref_loop M3 (r + 1) eps rows cs))"
            using tracks_eliminate [OF a2]
          proof (rule tracks_then)
            fix M3 s3 assume "M3 < length s3" "rectangular (s3 ! M3)"
            then show "tracks s3 M3
              (if r + 1 = rows then (Inr M3, s3) else rref_loop_st s3 M3 (r + 1) eps rows cs)
              (if r + 1 = rows then Inr (s3 ! M3) else rref_loop (s3 ! M3) (r + 1) eps rows cs)"
              by (simp add: tracks_same Cons.IH)
          qed
        qed
      qed
      with False Some show ?thesis by simp
    qed
  qed
qed

lemma tracks_rref:
  assumes "A < length s" "rectangular (s ! A)"
  shows "take (length s) (snd (rref_st s A eps)) = s \<and>
         (case fst (rref_st s A eps) of
            Inl e \<Rightarrow> rref (s ! A) eps = Inl e
          | Inr M' \<Rightarrow> length s \<le> M' \<and> M' < length (snd (rref_st s A eps)) \<and>
                     rref (s ! A) eps = Inr (snd (rref_st s A eps) ! M'))"
proof -
  let ?s1 = "s @ [s ! A]"
  let ?M = "length s"
  let ?x = "rref_loop_st ?s1 ?M 0 eps (nrows (s ! A)) [0..<ncols (s ! A)]"
  have st: "rref_st s A eps = then_st ?x (\<lambda>M' s2. (Inr M', s2[M' := cleanup (s2 ! M') eps]))"
    by (simp add: rref_st_def as_float_tensor_st_def)
  have pure: "rref (s ! A) eps =
      and_then (rref_loop (s ! A) 0 eps (nrows (s ! A)) [0..<ncols (s ! A)])
        (\<lambda>M'. Inr (cleanup M' eps))"
    using assms(2) by (simp add: rref_def)
  have "tracks ?s1 ?M ?x (rref_loop (?s1 ! ?M) 0 eps (nrows (s ! A)) [0..<ncols (s ! A)])"
    by (rule tracks_rref_loop) (simp_all add: assms)
  then have t: "tracks ?s1 ?M ?x (rref_loop (s ! A) 0 eps (nrows (s ! A)) [0..<ncols (s ! A)])"
    by simp
  then have "take (length ?s1) (snd ?x) = ?s1" by (simp add: tracks_def)
  then have "take (length s) (take (length ?s1) (snd ?x)) = take (length s) ?s1" by simp
  then have frame: "take (length s) (snd ?x) = s" by (simp add: min_def)
  obtain res s2 where x: "?x = (res, s2)" by (cases ?x)
  from frame x have frame2: "take (length s) s2 = s" by simp
  show ?thesis
  proof (cases res)
    case (Inl e)
    with x have "rref_st s A eps = (Inl e, s2)"
      unfolding st by (simp add: then_st_def)
    moreover from t x Inl have "rref (s ! A) eps = Inl e"
      by (simp add: tracks_def pure)
    ultimately show ?thesis using frame2 by simp
  next
    case (Inr M')
    with x have res: "rref_st s A eps = (Inr M', s2[M' := cleanup (s2 ! M') eps])"
      unfolding st by (simp add: then_st_def)
    from t x Inr have M': "M' < length s2" "M' = ?M \<or> length ?s1 \<le> M'"
        "rref_loop (s ! A) 0 eps (nrows (s ! A)) [0..<ncols (s ! A)] = Inr (s2 ! M')"
      by (simp_all add: tracks_def)
    from M'(2) have ge: "length s \<le> M'" by auto
    with frame2 have "take (length s) (s2[M' := cleanup (s2 ! M') eps]) = s"
      by simp
    moreover from M'(1,3) have "rref (s ! A) eps = Inr (s2[M' := cleanup (s2 ! M') eps] ! M')"
      by (simp add: pure)
    ultimately show ?thesis using res ge M'(1) by simp
  qed
qed

lemma tracks_fresh:
  assumes "tracks s A x y" and "\<And>M'. fst x = Inr M' \<Longrightarrow> M' \<noteq> A"
  shows "case x of (res, s') \<Rightarrow> take (length s) s' = s \<and>
           (case res of Inl e \<Rightarrow> y = Inl e
            | Inr M' \<Rightarrow> length s \<le> M' \<and> M' < length s' \<and> y = Inr (s' ! M'))"
  using assms by (cases x) (auto simp: tracks_def split: sum.splits)

lemma fresh_address:
  "fst (let (M, s1) = as_float_tensor_st s A in assign_st s1 M (op (s1 ! M))) = Inr M' \<Longrightarrow>
     M' = length s"
  by (auto simp: copy_then_assign split: sum.splits)

lemma rowswap_st_fresh: "fst (rowswap_st s A i j) = Inr M' \<Longrightarrow> M' = length s"
  unfolding rowswap_st_def by (rule fresh_address)

lemma rowscale_st_fresh: "fst (rowscale_st s A i factor) = Inr M' \<Longrightarrow> M' = length s"
  unfolding rowscale_st_def by (rule fresh_address)

lemma rowreplacement_st_fresh:
  "fst (rowreplacement_st s A i j j_scale k_scale) = Inr M' \<Longrightarrow> M' = length s"
  unfolding rowreplacement_st_def by (rule fresh_address)

text \<open>
  C9: let \<open>A\<close> be a tensor of the store. Each of \<open>rowswap\<close>, \<open>rowscale\<close>, \<open>rowreplacement\<close> and
  \<open>rref\<close>, whether it returns or raises, leaves every tensor that existed before the call,
  \<open>A\<close> among them, with the contents it had. When it returns, the result is a tensor allocated
  during the call, so it shares storage with no tensor of the caller, and it holds what the
  operation computes from the contents of \<open>A\<close>; when it raises, it raises what the function
  on contents raises.
\<close>

theorem operations_return_fresh_tensors:
  assumes "A < length s" and "rectangular (s ! A)"
  shows "(case rowswap_st s A i j of (res, s') \<Rightarrow> take (length s) s' = s \<and>
           (case res of Inl e \<Rightarrow> rowswap (s ! A) i j = Inl e
            | Inr M' \<Rightarrow> length s \<le> M' \<and> M' < length s' \<and> rowswap (s ! A) i j = Inr (s' ! M'))) \<and>
         (case rowscale_st s A i factor of (res, s') \<Rightarrow> take (length s) s' = s \<and>
           (case res of Inl e \<Rightarrow> rowscale (s ! A) i factor = Inl e
            | Inr M' \<Rightarrow> length s \<le> M' \<and> M' < length s' \<and>
                       rowscale (s ! A) i factor = Inr (s' ! M'))) \<and>
         (case rowreplacement_st s A i j j_scale k_scale of (res, s') \<Rightarrow> take (length s) s' = s \<and>
           (case res of Inl e \<Rightarrow> rowreplacement (s ! A) i j j_scale k_scale = Inl e
            | Inr M' \<Rightarrow> length s \<le> M' \<and> M' < length s' \<and>
                       rowreplacement (s ! A) i j j_scale k_scale = Inr (s' ! M'))) \<and>
         (case rref_st s A eps of (res, s') \<Rightarrow> take (length s) s' = s \<and>
           (case res of Inl e \<Rightarrow> rref (s ! A) eps = Inl e
            | Inr M' \<Rightarrow> length s \<le> M' \<and> M' < length s' \<and> rref (s ! A) eps = Inr (s' ! M')))"
proof (intro conjI)
  show "case rowswap_st s A i j of (res, s') \<Rightarrow> take (length s) s' = s \<and>
           (case res of Inl e \<Rightarrow> rowswap (s ! A) i j = Inl e
            | Inr M' \<Rightarrow> length s \<le> M' \<and> M' < length s' \<and> rowswap (s ! A) i j = Inr (s' ! M'))"
    by (rule tracks_fresh [OF tracks_rowswap [OF assms]])
       (use assms(1) in \<open>auto dest!: rowswap_st_fresh\<close>)
  show "case rowscale_st s A i factor of (res, s') \<Rightarrow> take (length s) s' = s \<and>
           (case res of Inl e \<Rightarrow> rowscale (s ! A) i factor = Inl e
            | Inr M' \<Rightarrow> length s \<le> M' \<and> M' < length s' \<and>
                       rowscale (s ! A) i factor = Inr (s' ! M'))"
    by (rule tracks_fresh [OF tracks_rowscale [OF assms]])
       (use assms(1) in \<open>auto dest!: rowscale_st_fresh\<close>)
  show "case rowreplacement_st s A i j j_scale k_scale of (res, s') \<Rightarrow> take (length s) s' = s \<and>
           (case res of Inl e \<Rightarrow> rowreplacement (s ! A) i j j_scale k_scale = Inl e
            | Inr M' \<Rightarrow> length s \<le> M' \<and> M' < length s' \<and>
                       rowreplacement (s ! A) i j j_scale k_scale = Inr (s' ! M'))"
    by (rule tracks_fresh [OF tracks_rowreplacement [OF assms]])
       (use assms(1) in \<open>auto dest!: rowreplacement_st_fresh\<close>)
  show "case rref_st s A eps of (res, s') \<Rightarrow> take (length s) s' = s \<and>
           (case res of Inl e \<Rightarrow> rref (s ! A) eps = Inl e
            | Inr M' \<Rightarrow> length s \<le> M' \<and> M' < length s' \<and> rref (s ! A) eps = Inr (s' ! M'))"
    using tracks_rref [OF assms, of eps] by (simp add: case_prod_unfold)
qed

theorem operations_return_fresh_tensors_witness:
  "(0::nat) < length [[[1, 4], [2, 4]]] \<and> rectangular ([[[1, 4], [2, 4]]] ! 0) \<and>
   rowswap_st [[[1, 4], [2, 4]]] 0 0 1 = (Inr 1, [[[1, 4], [2, 4]], [[2, 4], [1, 4]]]) \<and>
   rowscale_st [[[1, 4], [2, 4]]] 0 1 2 = (Inr 1, [[[1, 4], [2, 4]], [[1, 4], [4, 8]]]) \<and>
   rowreplacement_st [[[1, 4], [2, 4]]] 0 0 1 1 (- 1) =
     (Inr 1, [[[1, 4], [2, 4]], [[- 1, 0], [2, 4]]]) \<and>
   rowswap_st [[[1, 4], [2, 4]]] 0 0 2 = (Inl IndexError, [[[1, 4], [2, 4]], [[1, 4], [2, 4]]]) \<and>
   rref_st [[[1, 4], [2, 4]]] 0 default_eps =
     (Inr 6, [[[1, 4], [2, 4]], [[1, 4], [2, 4]], [[2, 4], [1, 4]], [[1, 2], [1, 4]],
              [[1, 2], [0, 2]], [[1, 2], [0, 1]], [[1, 0], [0, 1]]]) \<and>
   take 1 (snd (rref_st [[[1, 4], [2, 4]]] 0 default_eps)) = [[[1, 4], [2, 4]]]"
proof -
  let ?s = "[[[1, 4], [2, 4]]] :: store"
  have a: "0 < length ?s" by simp
  have b: "rectangular (?s ! 0)" by (simp add: rectangular_def)
  have c: "rowswap_st ?s 0 0 1 = (Inr 1, [[[1, 4], [2, 4]], [[2, 4], [1, 4]]])" by code_simp
  have d: "rowscale_st ?s 0 1 2 = (Inr 1, [[[1, 4], [2, 4]], [[1, 4], [4, 8]]])" by code_simp
  have e: "rowreplacement_st ?s 0 0 1 1 (- 1) = (Inr 1, [[[1, 4], [2, 4]], [[- 1, 0], [2, 4]]])"
    by code_simp
  have f: "rowswap_st ?s 0 0 2 = (Inl IndexError, [[[1, 4], [2, 4]], [[1, 4], [2, 4]]])"
    by code_simp
  have g: "rref_st ?s 0 default_eps =
     (Inr 6, [[[1, 4], [2, 4]], [[1, 4], [2, 4]], [[2, 4], [1, 4]], [[1, 2], [1, 4]],
              [[1, 2], [0, 2]], [[1, 2], [0, 1]], [[1, 0], [0, 1]]])"
    by code_simp
  from operations_return_fresh_tensors [OF a b, where eps = default_eps]
  have "take (length ?s) (snd (rref_st ?s 0 default_eps)) = ?s"
    unfolding case_prod_unfold by blast
  then have "take 1 (snd (rref_st ?s 0 default_eps)) = ?s"
    by (simp only: list.size One_nat_def add_0)
  with a b c d e f g show ?thesis by blast
qed

section \<open>Evaluated examples\<close>

text \<open>
  C1: for the matrix of the scenario and the default \<open>eps\<close>, \<open>rref\<close> returns the 3 by 5 matrix
  stated. In the exact arithmetic of the model the entries are equal to the stated ones, so
  they are within \<open>1e-9\<close> of them; the rounding errors of the floating-point run are not
  modelled.
\<close>

theorem rref_example:
  "rref [[0, 3, - 6, 6, 4], [3, - 7, 8, - 5, 8], [3, - 9, 12, - 9, 6]] default_eps =
     Inr [[1, 0, - 2, 3, 0], [0, 1, - 2, 2, 0], [0, 0, 0, 0, 1]]"
  by code_simp

text \<open>
  C4: the final cleanup zeroes the entries with \<open>\<bar>x\<bar> < eps\<close> only. With \<open>eps = 1/2\<close> the entry
  \<open>1/2\<close> below the pivot of column 0 is neither eliminated (the loops treat \<open>\<bar>x\<bar> \<le> eps\<close> as
  zero) nor cleaned, and the result is not in reduced row echelon form.
\<close>

theorem cleanup_keeps_boundary:
  "rref [[1, 0], [1 / 2, 1]] (1 / 2) = Inr [[1, 0], [1 / 2, 1]]"
  by code_simp

end
